theory Spec2Isabelle
  imports Main "HOL-Library.Product_Lexorder"
begin

section \<open>Data model of \<open>ai_agent.py\<close>\<close>

text \<open>
  A board cell is a Python tuple \<open>(i, j)\<close> of unbounded integers.  A \<open>Sentence\<close> object
  holds a set of cells and an integer count; Python sets are compared and hashed by value, and
  every \<open>Sentence\<close> owns a fresh set (\<open>set(cells)\<close> in the constructor), so
  sentences are modelled as values.
\<close>

type_synonym cell = "int \<times> int"

record Sentence =
  cells :: "cell set"
  count :: int

record MinesweeperAI =
  height :: int
  width :: int
  moves_made :: "cell set"
  mines :: "cell set"
  safes :: "cell set"
  knowledge :: "Sentence list"

text \<open>The constructor \<open>MinesweeperAI.__init__\<close>; the defaults are \<open>height=8, width=8\<close>.\<close>

definition MinesweeperAI_init :: "int \<Rightarrow> int \<Rightarrow> MinesweeperAI" where
  "MinesweeperAI_init h w =
     \<lparr>height = h, width = w, moves_made = {}, mines = {}, safes = {}, knowledge = []\<rparr>"

section \<open>The class \<open>Sentence\<close>\<close>

text \<open>
  \<open>known_mines\<close> and \<open>known_safes\<close> return either the cell set or Python's \<open>False\<close>;
  \<open>None\<close> stands for \<open>False\<close>.
\<close>

definition known_mines :: "Sentence \<Rightarrow> cell set option" where
  "known_mines s =
     (if int (card (cells s)) = count s \<and> count s \<noteq> 0 then Some (cells s) else None)"

definition known_safes :: "Sentence \<Rightarrow> cell set option" where
  "known_safes s = (if count s = 0 then Some (cells s) else None)"

text \<open>Python truthiness of such a result: \<open>False\<close> and the empty set are falsy.\<close>

definition truthy :: "cell set option \<Rightarrow> bool" where
  "truthy r = (case r of None \<Rightarrow> False | Some cs \<Rightarrow> cs \<noteq> {})"

definition Sentence_mark_mine :: "cell \<Rightarrow> Sentence \<Rightarrow> Sentence" where
  "Sentence_mark_mine c s =
     (if c \<in> cells s then s\<lparr>cells := cells s - {c}, count := count s - 1\<rparr> else s)"

definition Sentence_mark_safe :: "cell \<Rightarrow> Sentence \<Rightarrow> Sentence" where
  "Sentence_mark_safe c s = (if c \<in> cells s then s\<lparr>cells := cells s - {c}\<rparr> else s)"

section \<open>The class \<open>MinesweeperAI\<close>\<close>

subsection \<open>Marking\<close>

definition mark_mine :: "cell \<Rightarrow> MinesweeperAI \<Rightarrow> MinesweeperAI" where
  "mark_mine c ai =
     ai\<lparr>mines := insert c (mines ai), knowledge := map (Sentence_mark_mine c) (knowledge ai)\<rparr>"

definition mark_safe :: "cell \<Rightarrow> MinesweeperAI \<Rightarrow> MinesweeperAI" where
  "mark_safe c ai =
     ai\<lparr>safes := insert c (safes ai), knowledge := map (Sentence_mark_safe c) (knowledge ai)\<rparr>"

subsection \<open>\<open>neighbors\<close>\<close>

text \<open>
  The body of the two nested \<open>for\<close> loops of \<open>neighbors\<close>, for the candidate \<open>(i, j)\<close>;
  the loop state is the pair of \<open>neighboring_cells\<close> and \<open>count\<close>.
\<close>

definition neighbors_body ::
  "MinesweeperAI \<Rightarrow> cell \<Rightarrow> cell \<Rightarrow> cell set \<times> int \<Rightarrow> cell set \<times> int" where
  "neighbors_body ai cell ij st =
     (if ij = cell then st
      else if 0 \<le> fst ij \<and> fst ij < height ai \<and> 0 \<le> snd ij \<and> snd ij < width ai then
        (if ij \<in> mines ai then (fst st, snd st - 1)
         else if ij \<notin> safes ai \<or> ij \<notin> moves_made ai then (insert ij (fst st), snd st)
         else st)
      else st)"

text \<open>\<open>range(a - 1, a + 2)\<close> is the list \<open>[a - 1, a, a + 1]\<close>.\<close>

definition neighbors :: "MinesweeperAI \<Rightarrow> cell \<Rightarrow> int \<Rightarrow> Sentence" where
  "neighbors ai cell cnt =
     (let st = fold (\<lambda>i. fold (\<lambda>j. neighbors_body ai cell (i, j)) [snd cell - 1 .. snd cell + 1])
                 [fst cell - 1 .. fst cell + 1] ({}, cnt)
      in \<lparr>cells = fst st, count = snd st\<rparr>)"

subsection \<open>\<open>add_knowledge\<close>\<close>

text \<open>
  Steps 1 to 3: record the move, mark the cell safe unless it already is, append the
  neighbour sentence.
\<close>

definition observe :: "MinesweeperAI \<Rightarrow> cell \<Rightarrow> int \<Rightarrow> MinesweeperAI" where
  "observe ai cell cnt =
     (let ai1 = ai\<lparr>moves_made := insert cell (moves_made ai)\<rparr>;
          ai2 = (if cell \<notin> safes ai1 then mark_safe cell ai1 else ai1)
      in ai2\<lparr>knowledge := knowledge ai2 @ [neighbors ai2 cell cnt]\<rparr>)"

text \<open>
  Iterating over the copy of a cell set visits its elements in an order Python does not
  specify.  The model visits them in increasing order; \<open>marking_order_irrelevant\<close>
  below shows that the order makes no difference to the outcome.
\<close>

definition iterate_set :: "cell set \<Rightarrow> cell list" where
  "iterate_set S = sorted_list_of_set S"

text \<open>
  The body of the first loop of \<open>add_knowledge\<close> for the sentence at index \<open>i\<close> of the
  live list.  The marking calls mutate every sentence in place, the visited one included,
  so \<open>known_safes\<close> is asked of the sentence as it is after the mines were marked.
\<close>

definition extract_at :: "nat \<Rightarrow> MinesweeperAI \<Rightarrow> MinesweeperAI" where
  "extract_at i ai =
     (let ai1 = (if truthy (known_mines (knowledge ai ! i))
                 then fold mark_mine (iterate_set (the (known_mines (knowledge ai ! i)))) ai
                 else ai)
      in if truthy (known_safes (knowledge ai1 ! i))
         then fold mark_safe (iterate_set (the (known_safes (knowledge ai1 ! i)))) ai1
         else ai1)"

definition extract_pass :: "MinesweeperAI \<Rightarrow> MinesweeperAI" where
  "extract_pass ai = fold extract_at [0 ..< length (knowledge ai)] ai"

text \<open>
  The second loop.  The outer loop runs over a copy taken once; the inner loop takes a new
  copy of the list at every outer iteration, so it also visits the sentences appended by
  the earlier outer iterations.
\<close>

definition derive_body :: "Sentence \<Rightarrow> Sentence \<Rightarrow> Sentence list \<Rightarrow> Sentence list" where
  "derive_body i j k =
     (if cells j = cells i then k
      else if cells j \<subseteq> cells i
           then k @ [\<lparr>cells = cells i - cells j, count = count i - count j\<rparr>]
           else k)"

definition derive_inner :: "Sentence \<Rightarrow> Sentence list \<Rightarrow> Sentence list" where
  "derive_inner i k = fold (derive_body i) k k"

definition derive_pass :: "MinesweeperAI \<Rightarrow> MinesweeperAI" where
  "derive_pass ai = ai\<lparr>knowledge := fold derive_inner (knowledge ai) (knowledge ai)\<rparr>"

text \<open>
  \<open>list(set(self.knowledge))\<close> keeps one sentence of every class of equal ones, in an order
  that Python leaves to the hash table.  The function that lays the set out as a list is
  the parameter \<open>dedup\<close>; \<open>remdups\<close> is one such function.
\<close>

definition dedup_ok :: "(Sentence list \<Rightarrow> Sentence list) \<Rightarrow> bool" where
  "dedup_ok dedup = (\<forall>ks. distinct (dedup ks) \<and> set (dedup ks) = set ks)"

definition add_knowledge ::
  "(Sentence list \<Rightarrow> Sentence list) \<Rightarrow> cell \<Rightarrow> int \<Rightarrow> MinesweeperAI \<Rightarrow> MinesweeperAI" where
  "add_knowledge dedup cell cnt ai =
     (let ai' = derive_pass (extract_pass (observe ai cell cnt))
      in ai'\<lparr>knowledge := dedup (knowledge ai')\<rparr>)"

subsection \<open>Move selection\<close>

text \<open>
  \<open>make_safe_move\<close> walks the set \<open>self.safes\<close> in the order \<open>order\<close> (not fixed by
  Python) and returns the first cell that is not a move made.  It assigns to nothing;
  the state is returned as it was received.
\<close>

definition make_safe_move :: "cell list \<Rightarrow> MinesweeperAI \<Rightarrow> cell option \<times> MinesweeperAI" where
  "make_safe_move order ai = (find (\<lambda>c. c \<notin> moves_made ai) order, ai)"

datatype error = IndexError

text \<open>
  \<open>random.choice(seq)\<close> raises \<open>IndexError\<close> on an empty sequence and otherwise returns
  the element at an index below \<open>len(seq)\<close> drawn from the random source \<open>r\<close>.
\<close>

definition random_choice :: "nat \<Rightarrow> 'a list \<Rightarrow> error + 'a" where
  "random_choice r xs = (if xs = [] then Inl IndexError else Inr (xs ! (r mod length xs)))"

definition candidate_moves :: "MinesweeperAI \<Rightarrow> cell list" where
  "candidate_moves ai =
     concat (map (\<lambda>i. concat (map (\<lambda>j.
        if (i, j) \<notin> moves_made ai \<and> (i, j) \<notin> mines ai then [(i, j)] else [])
        [0 .. width ai - 1])) [0 .. height ai - 1])"

definition make_random_move ::
  "nat \<Rightarrow> MinesweeperAI \<Rightarrow> (error + cell option) \<times> MinesweeperAI" where
  "make_random_move r ai =
     (let moves = candidate_moves ai
      in if length moves \<noteq> 0
         then (case random_choice r moves of
                 Inl e \<Rightarrow> (Inl e, ai)
               | Inr c \<Rightarrow> (Inr (Some c), ai))
         else (Inr None, ai))"

subsection \<open>Sequences of calls\<close>

text \<open>
  The public operations of the engine, with the unspecified inputs of each (the iteration
  order of \<open>self.safes\<close>, the random draw) as arguments, and a run of a list of them
  from a given engine.
\<close>

datatype op =
    MarkMine cell
  | MarkSafe cell
  | AddKnowledge cell int
  | MakeSafeMove "cell list"
  | MakeRandomMove nat

fun apply_op :: "(Sentence list \<Rightarrow> Sentence list) \<Rightarrow> op \<Rightarrow> MinesweeperAI \<Rightarrow> MinesweeperAI" where
  "apply_op dedup (MarkMine c) ai = mark_mine c ai"
| "apply_op dedup (MarkSafe c) ai = mark_safe c ai"
| "apply_op dedup (AddKnowledge c n) ai = add_knowledge dedup c n ai"
| "apply_op dedup (MakeSafeMove order) ai = snd (make_safe_move order ai)"
| "apply_op dedup (MakeRandomMove r) ai = snd (make_random_move r ai)"

definition run :: "(Sentence list \<Rightarrow> Sentence list) \<Rightarrow> op list \<Rightarrow> MinesweeperAI \<Rightarrow> MinesweeperAI" where
  "run dedup ops ai = fold (apply_op dedup) ops ai"

section \<open>The board, as the specification speaks of it\<close>

text \<open>
  The cells of the board, \<open>{(r, c) : 0 <= r < height, 0 <= c < width}\<close>, and the in-bounds
  neighbours of a cell: the cells other than itself within one row and one column of it.
  Both are written as finite enumerations; \<open>board_cells_iff\<close> and
  \<open>in_bounds_neighbors_iff\<close> give their members.
\<close>

definition board_cells :: "int \<Rightarrow> int \<Rightarrow> cell set" where
  "board_cells h w = set (List.product [0 .. h - 1] [0 .. w - 1])"

definition in_bounds_neighbors :: "int \<Rightarrow> int \<Rightarrow> cell \<Rightarrow> cell set" where
  "in_bounds_neighbors h w cell =
     set (filter (\<lambda>n. n \<noteq> cell \<and> n \<in> board_cells h w)
           (List.product [fst cell - 1 .. fst cell + 1] [snd cell - 1 .. snd cell + 1]))"

text \<open>
  A board is given by the set \<open>M\<close> of its mined cells.  An operation agrees with the board
  when it marks as a mine only a mined cell, marks as safe only a cell without a mine, and
  reports for an observed cell, itself without a mine, the number of mines among its
  in-bounds neighbours.
\<close>

fun agrees :: "cell set \<Rightarrow> int \<Rightarrow> int \<Rightarrow> op \<Rightarrow> bool" where
  "agrees M h w (MarkMine c) = (c \<in> M)"
| "agrees M h w (MarkSafe c) = (c \<notin> M)"
| "agrees M h w (AddKnowledge c n) =
     (c \<notin> M \<and> n = int (card (in_bounds_neighbors h w c \<inter> M)))"
| "agrees M h w (MakeSafeMove order) = True"
| "agrees M h w (MakeRandomMove r) = True"

text \<open>A sentence is true of the board when its count is the number of mines in its cells.\<close>

definition sentence_true :: "cell set \<Rightarrow> Sentence \<Rightarrow> bool" where
  "sentence_true M s = (finite (cells s) \<and> count s = int (card (cells s \<inter> M)))"

definition sound :: "cell set \<Rightarrow> MinesweeperAI \<Rightarrow> bool" where
  "sound M ai =
     (mines ai \<subseteq> M \<and> safes ai \<inter> M = {} \<and> list_all (sentence_true M) (knowledge ai))"

section \<open>Auxiliary definitions\<close>

text \<open>The candidates that the loop of \<open>neighbors\<close> does not skip.\<close>

definition nb_keep :: "MinesweeperAI \<Rightarrow> cell \<Rightarrow> cell \<Rightarrow> bool" where
  "nb_keep ai cell n = (n \<noteq> cell \<and> n \<in> board_cells (height ai) (width ai))"

text \<open>Engine states used as concrete inputs.\<close>

definition ex_resolved :: MinesweeperAI where
  "ex_resolved = \<lparr>height = 1, width = 2, moves_made = {(0, 0)}, mines = {(0, 1)},
     safes = {(0, 0)}, knowledge = []\<rparr>"

definition ex_opened :: MinesweeperAI where
  "ex_opened = \<lparr>height = 2, width = 3, moves_made = {(0, 0)}, mines = {(1, 2)},
     safes = {(0, 0), (0, 1), (1, 0)}, knowledge = []\<rparr>"

text \<open>What the marking calls and the extraction loop leave as it was.\<close>

definition same_frame :: "MinesweeperAI \<Rightarrow> MinesweeperAI \<Rightarrow> bool" where
  "same_frame ai ai' =
     (height ai' = height ai \<and> width ai' = width ai \<and>
      length (knowledge ai') = length (knowledge ai))"

text \<open>No sentence of the knowledge holds a cell of \<open>mines\<close>.\<close>

definition avoids_mines :: "MinesweeperAI \<Rightarrow> bool" where
  "avoids_mines ai = list_all (\<lambda>s. cells s \<inter> mines ai = {}) (knowledge ai)"

text \<open>
  A board of 2 rows and 3 columns with mines at \<open>(1, 0)\<close> and \<open>(1, 1)\<close>, and
  operations that agree with it.
\<close>

definition ex_board :: "cell set" where
  "ex_board = {(1, 0), (1, 1)}"

definition ex_two :: MinesweeperAI where
  "ex_two = run remdups [AddKnowledge (1, 2) 1, AddKnowledge (0, 2) 1] (MinesweeperAI_init 2 3)"

definition ex_obs :: "op list" where
  "ex_obs = [AddKnowledge (1, 2) 1, AddKnowledge (0, 2) 1, AddKnowledge (0, 0) 2]"

definition ex_ops :: "op list" where
  "ex_ops = [AddKnowledge (1, 2) 1, AddKnowledge (0, 2) 1, AddKnowledge (0, 0) 2,
             MakeSafeMove [(0, 0), (0, 2), (1, 2)], MakeRandomMove 4, AddKnowledge (0, 1) 2]"

text \<open>
  Two observations that agree with the board of 2 rows and 3 columns whose only mine is at
  \<open>(1, 2)\<close>.
\<close>

definition ex_leak_ops :: "op list" where
  "ex_leak_ops = [AddKnowledge (0, 0) 0, AddKnowledge (0, 1) 1]"

definition ex_leak :: MinesweeperAI where
  "ex_leak = run remdups ex_leak_ops (MinesweeperAI_init 2 3)"

section \<open>Sentences\<close>

text \<open>
  C6: \<open>known_mines\<close> returns the cell set exactly when the count equals the number of
  cells and is not zero; in every other case, a count of zero over any cells and the empty
  set with count zero among them, it returns \<open>False\<close>.
\<close>

theorem known_mines_spec:
  "(known_mines s = Some (cells s) \<longleftrightarrow> count s = int (card (cells s)) \<and> count s \<noteq> 0) \<and>
   (known_mines s = None \<longleftrightarrow> \<not> (count s = int (card (cells s)) \<and> count s \<noteq> 0)) \<and>
   known_mines \<lparr>cells = cs, count = 0\<rparr> = None \<and>
   known_mines \<lparr>cells = {}, count = 0\<rparr> = None"
  by (auto simp: known_mines_def)

text \<open>
  C10: \<open>Sentence.mark_mine\<close> on a cell of the sentence removes the cell and lowers the
  count by one, whatever the count was: from a count of 0 it produces the count -1.
\<close>

theorem Sentence_mark_mine_unbounded:
  "c \<in> cells s \<Longrightarrow>
     cells (Sentence_mark_mine c s) = cells s - {c} \<and>
     count (Sentence_mark_mine c s) = count s - 1 \<and>
     (count s = 0 \<longrightarrow> count (Sentence_mark_mine c s) = - 1)"
  by (simp add: Sentence_mark_mine_def)

theorem Sentence_mark_mine_unbounded_witness:
  "(0, 1) \<in> cells \<lparr>cells = {(0, 1), (1, 1)}, count = 0\<rparr> \<and>
   cells (Sentence_mark_mine (0, 1) \<lparr>cells = {(0, 1), (1, 1)}, count = 0\<rparr>) = {(1, 1)} \<and>
   count (Sentence_mark_mine (0, 1) \<lparr>cells = {(0, 1), (1, 1)}, count = 0\<rparr>) = - 1"
  using Sentence_mark_mine_unbounded [of "(0, 1)" "\<lparr>cells = {(0, 1), (1, 1)}, count = 0\<rparr>"]
  by simp

section \<open>Marking in the engine\<close>

lemma Sentence_mark_mine_twice:
  "Sentence_mark_mine c (Sentence_mark_mine c s) = Sentence_mark_mine c s"
  by (simp add: Sentence_mark_mine_def)

lemma Sentence_mark_safe_twice:
  "Sentence_mark_safe c (Sentence_mark_safe c s) = Sentence_mark_safe c s"
  by (simp add: Sentence_mark_safe_def)

text \<open>
  C9: marking a cell as a mine twice, or as safe twice, leaves the engine as marking it once
  does: the same \<open>mines\<close>, \<open>safes\<close> and sentences (indeed the same engine state).
\<close>

theorem marking_idempotent:
  "mark_mine c (mark_mine c ai) = mark_mine c ai \<and>
   mark_safe c (mark_safe c ai) = mark_safe c ai"
  by (simp add: mark_mine_def mark_safe_def Sentence_mark_mine_twice Sentence_mark_safe_twice
      comp_def)

section \<open>The board\<close>

lemma board_cells_iff:
  "(i, j) \<in> board_cells h w \<longleftrightarrow> 0 \<le> i \<and> i < h \<and> 0 \<le> j \<and> j < w"
  by (auto simp: board_cells_def)

lemma in_bounds_neighbors_iff:
  "(i, j) \<in> in_bounds_neighbors h w cell \<longleftrightarrow>
     fst cell - 1 \<le> i \<and> i \<le> fst cell + 1 \<and> snd cell - 1 \<le> j \<and> j \<le> snd cell + 1 \<and>
     (i, j) \<noteq> cell \<and> 0 \<le> i \<and> i < h \<and> 0 \<le> j \<and> j < w"
  by (auto simp: in_bounds_neighbors_def board_cells_iff)

lemma finite_in_bounds_neighbors: "finite (in_bounds_neighbors h w cell)"
  by (simp add: in_bounds_neighbors_def)

lemma fold_product:
  "fold (\<lambda>i. fold (\<lambda>j. f (i, j)) ys) xs = fold f (List.product xs ys)"
  by (induction xs) (simp_all add: fold_map comp_def)

lemma neighbors_body_cases:
  "neighbors_body ai cell n st =
     (if nb_keep ai cell n \<and> n \<in> mines ai then (fst st, snd st - 1)
      else if nb_keep ai cell n \<and> \<not> (n \<in> safes ai \<and> n \<in> moves_made ai)
      then (insert n (fst st), snd st)
      else st)"
  by (cases n) (auto simp: neighbors_body_def nb_keep_def board_cells_iff)

lemma fold_neighbors_body:
  "fold (neighbors_body ai cell) xs st =
     (fst st \<union> {n \<in> set xs. nb_keep ai cell n \<and> n \<notin> mines ai \<and>
                     \<not> (n \<in> safes ai \<and> n \<in> moves_made ai)},
      snd st - int (length (filter (\<lambda>n. nb_keep ai cell n \<and> n \<in> mines ai) xs)))"
proof (induction xs arbitrary: st)
  case Nil
  show ?case by simp
next
  case (Cons x xs)
  show ?case
    unfolding fold_simps Cons.IH
    by (auto simp: neighbors_body_cases)
qed

lemma neighbors_closed_form:
  "neighbors ai cell cnt =
     \<lparr>cells = {n \<in> in_bounds_neighbors (height ai) (width ai) cell.
                n \<notin> mines ai \<and> \<not> (n \<in> safes ai \<and> n \<in> moves_made ai)},
      count = cnt - int (card (in_bounds_neighbors (height ai) (width ai) cell \<inter> mines ai))\<rparr>"
proof -
  let ?xs = "List.product [fst cell - 1 .. fst cell + 1] [snd cell - 1 .. snd cell + 1]"
  have d: "distinct ?xs"
    by (simp add: distinct_product)
  have nb: "in_bounds_neighbors (height ai) (width ai) cell = {n \<in> set ?xs. nb_keep ai cell n}"
    by (auto simp: in_bounds_neighbors_def nb_keep_def)
  have "in_bounds_neighbors (height ai) (width ai) cell \<inter> mines ai
          = set (filter (\<lambda>n. nb_keep ai cell n \<and> n \<in> mines ai) ?xs)"
    unfolding nb by auto
  moreover have "card (set (filter (\<lambda>n. nb_keep ai cell n \<and> n \<in> mines ai) ?xs))
          = length (filter (\<lambda>n. nb_keep ai cell n \<and> n \<in> mines ai) ?xs)"
    using d by (intro distinct_card distinct_filter)
  ultimately have c: "card (in_bounds_neighbors (height ai) (width ai) cell \<inter> mines ai)
          = length (filter (\<lambda>n. nb_keep ai cell n \<and> n \<in> mines ai) ?xs)"
    by (simp only:)
  show ?thesis
    unfolding neighbors_def fold_product fold_neighbors_body Let_def c
    unfolding nb by auto
qed

text \<open>
  C5: \<open>neighbors\<close> builds the sentence over the in-bounds neighbours of the cell: a
  neighbour in \<open>mines\<close> is left out and lowers the count by one; any other neighbour is
  put in unless it is both in \<open>safes\<close> and in \<open>moves_made\<close>.
\<close>

theorem neighbors_spec:
  "neighbors ai cell cnt =
     \<lparr>cells = {n \<in> in_bounds_neighbors (height ai) (width ai) cell.
                n \<notin> mines ai \<and> \<not> (n \<in> safes ai \<and> n \<in> moves_made ai)},
      count = cnt - int (card (in_bounds_neighbors (height ai) (width ai) cell \<inter> mines ai))\<rparr>"
  by (rule neighbors_closed_form)

theorem neighbors_spec_witness:
  "neighbors ex_opened (0, 1) 2 = \<lparr>cells = {(0, 2), (1, 0), (1, 1)}, count = 1\<rparr>"
proof -
  have h: "height ex_opened = 2" "width ex_opened = 3"
    by (simp_all add: ex_opened_def)
  have c: "{n \<in> in_bounds_neighbors 2 3 (0, 1).
             n \<notin> mines ex_opened \<and> \<not> (n \<in> safes ex_opened \<and> n \<in> moves_made ex_opened)}
           = {(0, 2), (1, 0), (1, 1)}"
    by code_simp
  have k: "card (in_bounds_neighbors 2 3 (0, 1) \<inter> mines ex_opened) = 1"
    by code_simp
  have "neighbors ex_opened (0, 1) 2 =
     \<lparr>cells = {n \<in> in_bounds_neighbors 2 3 (0, 1).
                n \<notin> mines ex_opened \<and> \<not> (n \<in> safes ex_opened \<and> n \<in> moves_made ex_opened)},
      count = 2 - int (card (in_bounds_neighbors 2 3 (0, 1) \<inter> mines ex_opened))\<rparr>"
    using neighbors_spec [of ex_opened "(0, 1)" 2] by (simp only: h)
  then show ?thesis
    unfolding c k by simp
qed

section \<open>Move selection\<close>

lemma set_candidate_moves:
  "set (candidate_moves ai) = board_cells (height ai) (width ai) - moves_made ai - mines ai"
  by (auto simp: candidate_moves_def board_cells_def split: if_splits)

text \<open>
  C7: \<open>make_random_move\<close> returns a cell of the board that is neither a move made nor a
  known mine; it returns \<open>None\<close> exactly when there is no such cell, and never raises,
  in particular not on a board that \<open>moves_made\<close> and \<open>mines\<close> cover.
\<close>

theorem make_random_move_spec:
  "(case fst (make_random_move r ai) of
      Inr (Some c) \<Rightarrow> c \<in> board_cells (height ai) (width ai) - moves_made ai - mines ai
    | Inr None \<Rightarrow> board_cells (height ai) (width ai) - moves_made ai - mines ai = {}
    | Inl e \<Rightarrow> False) \<and>
   (fst (make_random_move r ai) = Inr None \<longleftrightarrow>
      board_cells (height ai) (width ai) - moves_made ai - mines ai = {}) \<and>
   (board_cells (height ai) (width ai) \<subseteq> moves_made ai \<union> mines ai \<longrightarrow>
      fst (make_random_move r ai) = Inr None)"
proof (cases "candidate_moves ai = []")
  case True
  then have "set (candidate_moves ai) = {}" by simp
  then have e: "board_cells (height ai) (width ai) - moves_made ai - mines ai = {}"
    by (simp add: set_candidate_moves)
  from True e show ?thesis by (simp add: make_random_move_def Let_def)
next
  case False
  then have "candidate_moves ai ! (r mod length (candidate_moves ai)) \<in> set (candidate_moves ai)"
    by simp
  then have m: "candidate_moves ai ! (r mod length (candidate_moves ai))
      \<in> board_cells (height ai) (width ai) - moves_made ai - mines ai"
    by (simp only: set_candidate_moves)
  then have ne: "board_cells (height ai) (width ai) - moves_made ai - mines ai \<noteq> {}"
    by blast
  then have ns: "\<not> board_cells (height ai) (width ai) \<subseteq> moves_made ai \<union> mines ai"
    by blast
  from False m ne ns show ?thesis
    by (simp add: make_random_move_def random_choice_def Let_def)
qed

theorem make_random_move_spec_witness:
  "board_cells (height ex_resolved) (width ex_resolved)
     \<subseteq> moves_made ex_resolved \<union> mines ex_resolved \<and>
   fst (make_random_move 7 ex_resolved) = Inr None"
proof -
  have cover: "board_cells (height ex_resolved) (width ex_resolved)
     \<subseteq> moves_made ex_resolved \<union> mines ex_resolved"
    by code_simp
  with make_random_move_spec [where r = 7 and ai = ex_resolved] show ?thesis
    by blast
qed

text \<open>
  C8: \<open>make_safe_move\<close> returns a cell of \<open>safes\<close> that is not in \<open>moves_made\<close>
  when there is one and \<open>None\<close> otherwise, whatever the order in which the set is
  walked, and returns the engine unchanged.
\<close>

theorem make_safe_move_spec:
  assumes "set order = safes ai"
  shows "(case fst (make_safe_move order ai) of
            Some c \<Rightarrow> c \<in> safes ai \<and> c \<notin> moves_made ai
          | None \<Rightarrow> safes ai - moves_made ai = {}) \<and>
         (fst (make_safe_move order ai) = None \<longleftrightarrow> safes ai - moves_made ai = {}) \<and>
         snd (make_safe_move order ai) = ai"
proof (cases "find (\<lambda>c. c \<notin> moves_made ai) order")
  case None
  then have "safes ai - moves_made ai = {}"
    using assms by (auto simp: find_None_iff)
  with None show ?thesis by (simp add: make_safe_move_def)
next
  case (Some c)
  then have "c \<in> set order \<and> c \<notin> moves_made ai"
    by (auto simp: find_Some_iff)
  then have "c \<in> safes ai \<and> c \<notin> moves_made ai" and "safes ai - moves_made ai \<noteq> {}"
    using assms by auto
  with Some show ?thesis by (simp add: make_safe_move_def)
qed


theorem make_safe_move_spec_witness:
  "set [(0, 0), (1, 0), (0, 1)] = safes ex_opened \<and>
   fst (make_safe_move [(0, 0), (1, 0), (0, 1)] ex_opened) = Some (1, 0) \<and>
   (1, 0) \<in> safes ex_opened \<and> (1, 0) \<notin> moves_made ex_opened \<and>
   snd (make_safe_move [(0, 0), (1, 0), (0, 1)] ex_opened) = ex_opened"
proof -
  have o: "set [(0, 0), (1, 0), (0, 1)] = safes ex_opened"
    by code_simp
  have f: "fst (make_safe_move [(0, 0), (1, 0), (0, 1)] ex_opened) = Some (1, 0)"
    by code_simp
  from make_safe_move_spec [OF o] show ?thesis
    unfolding f using o f by simp
qed

section \<open>Marking the cells of a set\<close>

lemma fold_Sentence_mark_mine:
  "distinct xs \<Longrightarrow>
   fold Sentence_mark_mine xs s =
     s\<lparr>cells := cells s - set xs, count := count s - int (card (cells s \<inter> set xs))\<rparr>"
proof (induction xs arbitrary: s)
  case Nil
  show ?case by simp
next
  case (Cons x xs)
  then have d: "distinct xs" and nx: "x \<notin> set xs" by simp_all
  let ?s = "Sentence_mark_mine x s"
  have step: "fold Sentence_mark_mine (x # xs) s = fold Sentence_mark_mine xs ?s"
    by simp
  have ih: "fold Sentence_mark_mine xs ?s =
      ?s\<lparr>cells := cells ?s - set xs, count := count ?s - int (card (cells ?s \<inter> set xs))\<rparr>"
    by (rule Cons.IH [OF d])
  show ?case
  proof (cases "x \<in> cells s")
    case True
    have "cells s \<inter> set (x # xs) = insert x (cells s \<inter> set xs)"
      using True by auto
    moreover have "x \<notin> cells s \<inter> set xs" using nx by simp
    ultimately have c: "card (cells s \<inter> set (x # xs)) = Suc (card (cells s \<inter> set xs))"
      by simp
    have e: "(cells s - {x}) \<inter> set xs = cells s \<inter> set xs"
      using nx by auto
    have f: "cells s - {x} - set xs = cells s - set (x # xs)"
      by auto
    have "?s\<lparr>cells := cells ?s - set xs, count := count ?s - int (card (cells ?s \<inter> set xs))\<rparr>
        = s\<lparr>cells := cells s - set (x # xs),
             count := count s - int (card (cells s \<inter> set (x # xs)))\<rparr>"
      using True by (simp add: Sentence_mark_mine_def c e f del: set_simps)
    with step ih show ?thesis by (simp only:)
  next
    case False
    then have "cells s \<inter> set (x # xs) = cells s \<inter> set xs"
      and "cells s - set (x # xs) = cells s - set xs" by auto
    then have "?s\<lparr>cells := cells ?s - set xs, count := count ?s - int (card (cells ?s \<inter> set xs))\<rparr>
        = s\<lparr>cells := cells s - set (x # xs),
             count := count s - int (card (cells s \<inter> set (x # xs)))\<rparr>"
      using False by (simp add: Sentence_mark_mine_def del: set_simps)
    with step ih show ?thesis by (simp only:)
  qed
qed

lemma fold_Sentence_mark_safe:
  "fold Sentence_mark_safe xs s = s\<lparr>cells := cells s - set xs\<rparr>"
proof (induction xs arbitrary: s)
  case Nil
  show ?case by simp
next
  case (Cons x xs)
  have a: "cells s - {x} - set xs = cells s - set (x # xs)" by auto
  have b: "x \<notin> cells s \<Longrightarrow> cells s - set xs = cells s - set (x # xs)" by auto
  have "fold Sentence_mark_safe (x # xs) s = fold Sentence_mark_safe xs (Sentence_mark_safe x s)"
    by simp
  also have "\<dots> = (Sentence_mark_safe x s)\<lparr>cells := cells (Sentence_mark_safe x s) - set xs\<rparr>"
    by (rule Cons.IH)
  also have "\<dots> = s\<lparr>cells := cells s - set (x # xs)\<rparr>"
    using a b by (simp add: Sentence_mark_safe_def del: set_simps)
  finally show ?case .
qed

lemma fold_mark_mine:
  "fold mark_mine xs ai =
     ai\<lparr>mines := mines ai \<union> set xs,
        knowledge := map (fold Sentence_mark_mine xs) (knowledge ai)\<rparr>"
proof (induction xs arbitrary: ai)
  case Nil
  show ?case by simp
next
  case (Cons x xs)
  have "fold mark_mine (x # xs) ai = fold mark_mine xs (mark_mine x ai)"
    by simp
  also have "\<dots> = (mark_mine x ai)\<lparr>mines := mines (mark_mine x ai) \<union> set xs,
        knowledge := map (fold Sentence_mark_mine xs) (knowledge (mark_mine x ai))\<rparr>"
    by (rule Cons.IH)
  also have "\<dots> = ai\<lparr>mines := mines ai \<union> set (x # xs),
        knowledge := map (fold Sentence_mark_mine (x # xs)) (knowledge ai)\<rparr>"
    by (simp add: mark_mine_def comp_def)
  finally show ?case .
qed

lemma fold_mark_safe:
  "fold mark_safe xs ai =
     ai\<lparr>safes := safes ai \<union> set xs,
        knowledge := map (fold Sentence_mark_safe xs) (knowledge ai)\<rparr>"
proof (induction xs arbitrary: ai)
  case Nil
  show ?case by simp
next
  case (Cons x xs)
  have "fold mark_safe (x # xs) ai = fold mark_safe xs (mark_safe x ai)"
    by simp
  also have "\<dots> = (mark_safe x ai)\<lparr>safes := safes (mark_safe x ai) \<union> set xs,
        knowledge := map (fold Sentence_mark_safe xs) (knowledge (mark_safe x ai))\<rparr>"
    by (rule Cons.IH)
  also have "\<dots> = ai\<lparr>safes := safes ai \<union> set (x # xs),
        knowledge := map (fold Sentence_mark_safe (x # xs)) (knowledge ai)\<rparr>"
    by (simp add: mark_safe_def comp_def)
  finally show ?case .
qed

lemma set_iterate_set: "finite S \<Longrightarrow> set (iterate_set S) = S"
  by (simp add: iterate_set_def)

lemma distinct_iterate_set: "distinct (iterate_set S)"
  by (simp add: iterate_set_def)

text \<open>Marking every cell of a finite set, in closed form; the order of the walk is gone.\<close>

lemma mark_mines_of_set:
  assumes "distinct xs"
  shows "fold mark_mine xs ai =
     ai\<lparr>mines := mines ai \<union> set xs,
        knowledge := map (\<lambda>s. s\<lparr>cells := cells s - set xs,
                                 count := count s - int (card (cells s \<inter> set xs))\<rparr>) (knowledge ai)\<rparr>"
  unfolding fold_mark_mine using fold_Sentence_mark_mine [OF assms] by simp

lemma mark_safes_of_set:
  "fold mark_safe xs ai =
     ai\<lparr>safes := safes ai \<union> set xs,
        knowledge := map (\<lambda>s. s\<lparr>cells := cells s - set xs\<rparr>) (knowledge ai)\<rparr>"
  unfolding fold_mark_safe using fold_Sentence_mark_safe by simp


lemma marking_order_irrelevant:
  assumes "distinct xs" "distinct ys" "set xs = set ys"
  shows "fold mark_mine xs ai = fold mark_mine ys ai \<and> fold mark_safe xs ai = fold mark_safe ys ai"
  using assms by (simp add: mark_mines_of_set mark_safes_of_set)

section \<open>Soundness with respect to a board\<close>

text \<open>
  The engine is sound for a board when its \<open>mines\<close> are mined, its \<open>safes\<close> are not,
  and every sentence it holds is true.  Every operation that agrees with the board keeps the
  engine sound.
\<close>

lemma sentence_true_mark_mine:
  assumes "c \<in> M" "sentence_true M s"
  shows "sentence_true M (Sentence_mark_mine c s)"
proof (cases "c \<in> cells s")
  case True
  have fin: "finite (cells s \<inter> M)" using assms(2) by (simp add: sentence_true_def)
  have mem: "c \<in> cells s \<inter> M" using True assms(1) by simp
  have "(cells s - {c}) \<inter> M = cells s \<inter> M - {c}" by auto
  then have "card ((cells s - {c}) \<inter> M) = card (cells s \<inter> M) - 1"
    using fin mem by simp
  moreover have "0 < card (cells s \<inter> M)"
    using fin mem by (auto simp: card_gt_0_iff)
  ultimately have "int (card ((cells s - {c}) \<inter> M)) = int (card (cells s \<inter> M)) - 1"
    by simp
  then show ?thesis
    using True assms(2) by (simp add: sentence_true_def Sentence_mark_mine_def)
next
  case False
  then show ?thesis using assms(2) by (simp add: Sentence_mark_mine_def)
qed

lemma sentence_true_mark_safe:
  assumes "c \<notin> M" "sentence_true M s"
  shows "sentence_true M (Sentence_mark_safe c s)"
proof -
  have "(cells s - {c}) \<inter> M = cells s \<inter> M" using assms(1) by auto
  then show ?thesis
    using assms(2) by (simp add: sentence_true_def Sentence_mark_safe_def)
qed

lemma sentence_true_difference:
  assumes "sentence_true M i" "sentence_true M j" "cells j \<subseteq> cells i"
  shows "sentence_true M \<lparr>cells = cells i - cells j, count = count i - count j\<rparr>"
proof -
  have fi: "finite (cells i \<inter> M)" and fj: "finite (cells j \<inter> M)"
    using assms(1,2) by (simp_all add: sentence_true_def)
  have sub: "cells j \<inter> M \<subseteq> cells i \<inter> M" using assms(3) by auto
  have "(cells i - cells j) \<inter> M = cells i \<inter> M - cells j \<inter> M" by auto
  then have "card ((cells i - cells j) \<inter> M) = card (cells i \<inter> M) - card (cells j \<inter> M)"
    using fj sub by (simp add: card_Diff_subset)
  moreover have "card (cells j \<inter> M) \<le> card (cells i \<inter> M)"
    using fi sub by (rule card_mono)
  ultimately have "int (card ((cells i - cells j) \<inter> M))
      = int (card (cells i \<inter> M)) - int (card (cells j \<inter> M))"
    by simp
  then show ?thesis
    using assms(1,2) by (simp add: sentence_true_def)
qed

lemma sentence_true_bounds:
  assumes "sentence_true M s"
  shows "0 \<le> count s \<and> count s \<le> int (card (cells s))"
proof -
  have "finite (cells s)" using assms by (simp add: sentence_true_def)
  then have "card (cells s \<inter> M) \<le> card (cells s)"
    by (intro card_mono) auto
  then show ?thesis using assms by (simp add: sentence_true_def)
qed

lemma known_mines_sound:
  assumes "sentence_true M s" "known_mines s = Some cs"
  shows "finite cs \<and> cs \<subseteq> M"
proof -
  have cs: "cs = cells s" and eq: "int (card (cells s)) = count s"
    using assms(2) by (auto simp: known_mines_def split: if_splits)
  have fin: "finite (cells s)" and "count s = int (card (cells s \<inter> M))"
    using assms(1) by (simp_all add: sentence_true_def)
  with eq have "card (cells s \<inter> M) = card (cells s)" by simp
  then have "cells s \<inter> M = cells s"
    using fin by (intro card_subset_eq) auto
  then show ?thesis using cs fin by auto
qed

lemma known_safes_sound:
  assumes "sentence_true M s" "known_safes s = Some cs"
  shows "finite cs \<and> cs \<inter> M = {}"
proof -
  have cs: "cs = cells s" and z: "count s = 0"
    using assms(2) by (auto simp: known_safes_def split: if_splits)
  have fin: "finite (cells s)" and "count s = int (card (cells s \<inter> M))"
    using assms(1) by (simp_all add: sentence_true_def)
  with z have "card (cells s \<inter> M) = 0" by simp
  then have "cells s \<inter> M = {}" using fin by simp
  then show ?thesis using cs fin by simp
qed

lemma sound_mark_mine: "c \<in> M \<Longrightarrow> sound M ai \<Longrightarrow> sound M (mark_mine c ai)"
  by (simp add: sound_def mark_mine_def list_all_iff sentence_true_mark_mine)

lemma sound_mark_safe: "c \<notin> M \<Longrightarrow> sound M ai \<Longrightarrow> sound M (mark_safe c ai)"
  by (simp add: sound_def mark_safe_def list_all_iff sentence_true_mark_safe)

lemma sound_fold_mark_mine:
  "set xs \<subseteq> M \<Longrightarrow> sound M ai \<Longrightarrow> sound M (fold mark_mine xs ai)"
  by (induction xs arbitrary: ai) (simp_all add: sound_mark_mine)

lemma sound_fold_mark_safe:
  "set xs \<inter> M = {} \<Longrightarrow> sound M ai \<Longrightarrow> sound M (fold mark_safe xs ai)"
  by (induction xs arbitrary: ai) (simp_all add: sound_mark_safe)

text \<open>The marking calls keep the board size and the length of the list.\<close>

lemma same_frame_fold_mark_mine: "same_frame ai (fold mark_mine xs ai)"
  by (simp add: fold_mark_mine same_frame_def)

lemma same_frame_fold_mark_safe: "same_frame ai (fold mark_safe xs ai)"
  by (simp add: fold_mark_safe same_frame_def)

lemma same_frame_extract_at: "same_frame ai (extract_at i ai)"
  using same_frame_fold_mark_mine same_frame_fold_mark_safe
  by (auto simp: extract_at_def Let_def same_frame_def)

lemma truthy_Some: "truthy r \<Longrightarrow> \<exists>cs. r = Some cs"
  by (cases r) (simp_all add: truthy_def)

lemma sound_extract_at:
  assumes "i < length (knowledge ai)" "sound M ai"
  shows "sound M (extract_at i ai)"
proof -
  define ai1 where "ai1 = (if truthy (known_mines (knowledge ai ! i))
                 then fold mark_mine (iterate_set (the (known_mines (knowledge ai ! i)))) ai
                 else ai)"
  have s1: "sound M ai1"
  proof (cases "truthy (known_mines (knowledge ai ! i))")
    case True
    then obtain cs where cs: "known_mines (knowledge ai ! i) = Some cs"
      using truthy_Some by blast
    have "sentence_true M (knowledge ai ! i)"
      using assms by (simp add: sound_def list_all_length)
    then have "finite cs \<and> cs \<subseteq> M" using cs by (rule known_mines_sound)
    then have "set (iterate_set cs) \<subseteq> M" by (simp add: set_iterate_set)
    then show ?thesis
      using True cs assms(2) by (simp add: ai1_def sound_fold_mark_mine)
  next
    case False
    then show ?thesis using assms(2) by (simp add: ai1_def)
  qed
  have "same_frame ai ai1"
    using same_frame_fold_mark_mine by (simp add: ai1_def same_frame_def)
  then have len: "i < length (knowledge ai1)"
    using assms(1) by (simp add: same_frame_def)
  have "sound M (if truthy (known_safes (knowledge ai1 ! i))
         then fold mark_safe (iterate_set (the (known_safes (knowledge ai1 ! i)))) ai1
         else ai1)"
  proof (cases "truthy (known_safes (knowledge ai1 ! i))")
    case True
    then obtain cs where cs: "known_safes (knowledge ai1 ! i) = Some cs"
      using truthy_Some by blast
    have "sentence_true M (knowledge ai1 ! i)"
      using len s1 by (simp add: sound_def list_all_length)
    then have "finite cs \<and> cs \<inter> M = {}" using cs by (rule known_safes_sound)
    then have "set (iterate_set cs) \<inter> M = {}" by (simp add: set_iterate_set)
    then show ?thesis
      using True cs s1 by (simp add: sound_fold_mark_safe)
  next
    case False
    then show ?thesis using s1 by simp
  qed
  then show ?thesis
    unfolding extract_at_def Let_def ai1_def .
qed

lemma sound_fold_extract_at:
  "\<forall>i \<in> set is. i < length (knowledge ai) \<Longrightarrow> sound M ai \<Longrightarrow>
     sound M (fold extract_at is ai)"
proof (induction "is" arbitrary: ai)
  case Nil
  then show ?case by simp
next
  case (Cons i "is")
  have "length (knowledge (extract_at i ai)) = length (knowledge ai)"
    using same_frame_extract_at [of ai i] by (simp add: same_frame_def)
  moreover have "sound M (extract_at i ai)"
    using Cons.prems by (simp add: sound_extract_at)
  ultimately have "sound M (fold extract_at is (extract_at i ai))"
    using Cons.prems by (intro Cons.IH) simp_all
  then show ?case by simp
qed

lemma sound_extract_pass: "sound M ai \<Longrightarrow> sound M (extract_pass ai)"
  unfolding extract_pass_def by (rule sound_fold_extract_at) simp_all

lemma same_frame_fold_extract_at: "same_frame ai (fold extract_at is ai)"
proof (induction "is" arbitrary: ai)
  case Nil
  show ?case by (simp add: same_frame_def)
next
  case (Cons i "is")
  have "same_frame (extract_at i ai) (fold extract_at is (extract_at i ai))"
    by (rule Cons.IH)
  then show ?case
    using same_frame_extract_at [of ai i] by (simp add: same_frame_def)
qed


subsection \<open>The derivation pass\<close>

lemma set_fold_derive_body_mono: "set k \<subseteq> set (fold (derive_body i) js k)"
proof (induction js arbitrary: k)
  case Nil
  show ?case by simp
next
  case (Cons j js)
  have "set k \<subseteq> set (derive_body i j k)" by (auto simp: derive_body_def)
  also have "\<dots> \<subseteq> set (fold (derive_body i) js (derive_body i j k))" by (rule Cons.IH)
  finally show ?case by simp
qed

lemma fold_derive_body_adds:
  assumes "j \<in> set js" "cells j \<subseteq> cells i" "cells j \<noteq> cells i"
  shows "\<lparr>cells = cells i - cells j, count = count i - count j\<rparr>
           \<in> set (fold (derive_body i) js k)"
  using assms(1)
proof (induction js arbitrary: k)
  case Nil
  then show ?case by simp
next
  case (Cons x js)
  show ?case
  proof (cases "x = j")
    case True
    have "\<lparr>cells = cells i - cells j, count = count i - count j\<rparr> \<in> set (derive_body i j k)"
      using assms(2,3) by (simp add: derive_body_def)
    then show ?thesis
      using True set_fold_derive_body_mono [of "derive_body i j k" i js] by auto
  next
    case False
    then have "j \<in> set js" using Cons.prems by simp
    then show ?thesis using Cons.IH by simp
  qed
qed

lemma set_derive_inner_mono: "set k \<subseteq> set (derive_inner i k)"
  unfolding derive_inner_def by (rule set_fold_derive_body_mono)

lemma set_fold_derive_inner_mono: "set k \<subseteq> set (fold derive_inner is k)"
proof (induction "is" arbitrary: k)
  case Nil
  show ?case by simp
next
  case (Cons i "is")
  have "set k \<subseteq> set (derive_inner i k)" by (rule set_derive_inner_mono)
  also have "\<dots> \<subseteq> set (fold derive_inner is (derive_inner i k))" by (rule Cons.IH)
  finally show ?case by simp
qed

lemma fold_derive_inner_adds:
  assumes "i \<in> set is" "j \<in> set k" "cells j \<subseteq> cells i" "cells j \<noteq> cells i"
  shows "\<lparr>cells = cells i - cells j, count = count i - count j\<rparr>
           \<in> set (fold derive_inner is k)"
  using assms(1,2)
proof (induction "is" arbitrary: k)
  case Nil
  then show ?case by simp
next
  case (Cons x "is")
  show ?case
  proof (cases "x = i")
    case True
    have "\<lparr>cells = cells i - cells j, count = count i - count j\<rparr> \<in> set (derive_inner i k)"
      unfolding derive_inner_def using Cons.prems(2) assms(3,4) by (rule fold_derive_body_adds)
    then show ?thesis
      using True set_fold_derive_inner_mono [of "derive_inner i k" "is"] by auto
  next
    case False
    then have "i \<in> set is" using Cons.prems(1) by simp
    moreover have "j \<in> set (derive_inner x k)"
      using Cons.prems(2) set_derive_inner_mono by blast
    ultimately show ?thesis using Cons.IH by simp
  qed
qed

lemma derive_pass_adds:
  assumes "A \<in> set (knowledge ai)" "B \<in> set (knowledge ai)" "cells B \<subset> cells A"
  shows "\<lparr>cells = cells A - cells B, count = count A - count B\<rparr>
           \<in> set (knowledge (derive_pass ai))"
proof -
  have "cells B \<subseteq> cells A" "cells B \<noteq> cells A" using assms(3) by auto
  with assms(1,2) show ?thesis
    by (simp add: derive_pass_def fold_derive_inner_adds)
qed

lemma true_fold_derive_body:
  "sentence_true M i \<Longrightarrow> list_all (sentence_true M) js \<Longrightarrow> list_all (sentence_true M) k \<Longrightarrow>
     list_all (sentence_true M) (fold (derive_body i) js k)"
proof (induction js arbitrary: k)
  case Nil
  then show ?case by simp
next
  case (Cons j js)
  have "list_all (sentence_true M) (derive_body i j k)"
    using Cons.prems by (simp add: derive_body_def sentence_true_difference)
  then show ?case using Cons.prems Cons.IH by simp
qed

lemma true_fold_derive_inner:
  "list_all (sentence_true M) is \<Longrightarrow> list_all (sentence_true M) k \<Longrightarrow>
     list_all (sentence_true M) (fold derive_inner is k)"
proof (induction "is" arbitrary: k)
  case Nil
  then show ?case by simp
next
  case (Cons i "is")
  have "list_all (sentence_true M) (derive_inner i k)"
    unfolding derive_inner_def using Cons.prems by (intro true_fold_derive_body) simp_all
  then show ?case using Cons.prems Cons.IH by simp
qed

lemma sound_derive_pass: "sound M ai \<Longrightarrow> sound M (derive_pass ai)"
  by (simp add: sound_def derive_pass_def true_fold_derive_inner)


subsection \<open>Observations and runs\<close>

lemma sentence_true_neighbors:
  assumes "sound M ai" "cnt = int (card (in_bounds_neighbors (height ai) (width ai) cell \<inter> M))"
  shows "sentence_true M (neighbors ai cell cnt)"
proof -
  let ?N = "in_bounds_neighbors (height ai) (width ai) cell"
  let ?C = "{n \<in> ?N. n \<notin> mines ai \<and> \<not> (n \<in> safes ai \<and> n \<in> moves_made ai)}"
  have fin: "finite ?N" by (rule finite_in_bounds_neighbors)
  have sub: "mines ai \<subseteq> M" and dis: "safes ai \<inter> M = {}"
    using assms(1) by (simp_all add: sound_def)
  have "?C \<inter> M = ?N \<inter> M - ?N \<inter> mines ai"
    using dis by auto
  moreover have "?N \<inter> mines ai \<subseteq> ?N \<inter> M" using sub by auto
  moreover have "finite (?N \<inter> mines ai)" "finite (?N \<inter> M)" using fin by simp_all
  ultimately have "card (?C \<inter> M) = card (?N \<inter> M) - card (?N \<inter> mines ai)"
    and "card (?N \<inter> mines ai) \<le> card (?N \<inter> M)"
    by (simp_all add: card_Diff_subset card_mono)
  then have "int (card (?C \<inter> M)) = cnt - int (card (?N \<inter> mines ai))"
    using assms(2) by simp
  moreover have "finite ?C" using fin by simp
  ultimately show ?thesis
    by (simp add: neighbors_closed_form sentence_true_def)
qed

lemma sound_observe:
  assumes "sound M ai" "cell \<notin> M"
    "cnt = int (card (in_bounds_neighbors (height ai) (width ai) cell \<inter> M))"
  shows "sound M (observe ai cell cnt)"
proof -
  define ai1 where "ai1 = ai\<lparr>moves_made := insert cell (moves_made ai)\<rparr>"
  define ai2 where "ai2 = (if cell \<notin> safes ai1 then mark_safe cell ai1 else ai1)"
  have s1: "sound M ai1" using assms(1) by (simp add: ai1_def sound_def)
  then have s2: "sound M ai2" using assms(2) by (simp add: ai2_def sound_mark_safe)
  have "height ai2 = height ai" "width ai2 = width ai"
    by (simp_all add: ai2_def ai1_def mark_safe_def)
  then have "sentence_true M (neighbors ai2 cell cnt)"
    using s2 assms(3) by (intro sentence_true_neighbors) simp_all
  then have "sound M (ai2\<lparr>knowledge := knowledge ai2 @ [neighbors ai2 cell cnt]\<rparr>)"
    using s2 by (simp add: sound_def)
  then show ?thesis
    unfolding observe_def Let_def ai2_def ai1_def .
qed

lemma sound_add_knowledge:
  assumes "dedup_ok dedup" "sound M ai" "cell \<notin> M"
    "cnt = int (card (in_bounds_neighbors (height ai) (width ai) cell \<inter> M))"
  shows "sound M (add_knowledge dedup cell cnt ai)"
proof -
  have "sound M (derive_pass (extract_pass (observe ai cell cnt)))"
    using assms(2-4) by (intro sound_derive_pass sound_extract_pass sound_observe)
  moreover have "set (dedup ks) = set ks" for ks
    using assms(1) by (simp add: dedup_ok_def)
  ultimately show ?thesis
    by (simp add: add_knowledge_def Let_def sound_def list_all_iff)
qed

lemma size_observe:
  "height (observe ai cell cnt) = height ai \<and> width (observe ai cell cnt) = width ai"
  by (simp add: observe_def Let_def mark_safe_def)

lemma size_add_knowledge:
  "height (add_knowledge dedup cell cnt ai) = height ai \<and>
   width (add_knowledge dedup cell cnt ai) = width ai"
proof -
  have "same_frame (observe ai cell cnt) (extract_pass (observe ai cell cnt))"
    unfolding extract_pass_def by (rule same_frame_fold_extract_at)
  then show ?thesis
    using size_observe [of ai cell cnt]
    by (simp add: add_knowledge_def Let_def derive_pass_def same_frame_def)
qed

lemma size_apply_op:
  "height (apply_op dedup x ai) = height ai \<and> width (apply_op dedup x ai) = width ai"
  by (cases x)
    (simp_all add: mark_mine_def mark_safe_def size_add_knowledge make_safe_move_def
      make_random_move_def Let_def split: sum.splits)

lemma sound_apply_op:
  assumes "dedup_ok dedup" "sound M ai" "agrees M (height ai) (width ai) x"
  shows "sound M (apply_op dedup x ai)"
proof (cases x)
  case (MarkMine c)
  then show ?thesis using assms by (simp add: sound_mark_mine)
next
  case (MarkSafe c)
  then show ?thesis using assms by (simp add: sound_mark_safe)
next
  case (AddKnowledge c n)
  then show ?thesis using assms by (simp add: sound_add_knowledge)
next
  case (MakeSafeMove order)
  then show ?thesis using assms by (simp add: make_safe_move_def)
next
  case (MakeRandomMove r)
  then show ?thesis
    using assms by (simp add: make_random_move_def Let_def split: sum.splits)
qed

lemma sound_run:
  "dedup_ok dedup \<Longrightarrow> sound M ai \<Longrightarrow> list_all (agrees M (height ai) (width ai)) ops \<Longrightarrow>
     sound M (run dedup ops ai)"
proof (induction ops arbitrary: ai)
  case Nil
  then show ?case by (simp add: run_def)
next
  case (Cons x ops)
  have "sound M (apply_op dedup x ai)"
    using Cons.prems by (intro sound_apply_op) simp_all
  moreover have "list_all (agrees M (height (apply_op dedup x ai)) (width (apply_op dedup x ai))) ops"
    using Cons.prems by (simp add: size_apply_op)
  ultimately have "sound M (run dedup ops (apply_op dedup x ai))"
    using Cons.prems(1) Cons.IH by blast
  then show ?case by (simp add: run_def)
qed

lemma sound_init: "sound M (MinesweeperAI_init h w)"
  by (simp add: sound_def MinesweeperAI_init_def)

lemma sound_run_init:
  assumes "dedup_ok dedup" "list_all (agrees M h w) ops"
  shows "sound M (run dedup ops (MinesweeperAI_init h w))"
proof -
  have "height (MinesweeperAI_init h w) = h" "width (MinesweeperAI_init h w) = w"
    by (simp_all add: MinesweeperAI_init_def)
  then show ?thesis
    using assms sound_init by (intro sound_run) simp_all
qed

lemma dedup_ok_remdups: "dedup_ok remdups"
  by (simp add: dedup_ok_def)

section \<open>Invariants of the engine\<close>

subsection \<open>Sentences hold no known mine\<close>

text \<open>
  Whatever the operations and their arguments, a new engine never holds a sentence with a
  cell of \<open>mines\<close>: \<open>mark_mine\<close> takes the cell out of every sentence, \<open>neighbors\<close>
  leaves known mines out, and a derived sentence has cells of an existing one.
\<close>

lemma cells_Sentence_mark_mine: "cells (Sentence_mark_mine c s) = cells s - {c}"
  by (auto simp: Sentence_mark_mine_def)

lemma cells_Sentence_mark_safe: "cells (Sentence_mark_safe c s) = cells s - {c}"
  by (auto simp: Sentence_mark_safe_def)

lemma avoid_after_mark:
  "cells s \<inter> Mn = {} \<Longrightarrow> (cells s - {c}) \<inter> insert c Mn = {} \<and> (cells s - {c}) \<inter> Mn = {}"
  by blast

lemma avoids_mines_mark_mine: "avoids_mines ai \<Longrightarrow> avoids_mines (mark_mine c ai)"
  by (simp add: avoids_mines_def mark_mine_def list_all_iff cells_Sentence_mark_mine
      avoid_after_mark)

lemma avoids_mines_mark_safe: "avoids_mines ai \<Longrightarrow> avoids_mines (mark_safe c ai)"
  by (simp add: avoids_mines_def mark_safe_def list_all_iff cells_Sentence_mark_safe
      avoid_after_mark)

lemma avoids_mines_fold_mark_mine: "avoids_mines ai \<Longrightarrow> avoids_mines (fold mark_mine xs ai)"
  by (induction xs arbitrary: ai) (simp_all add: avoids_mines_mark_mine)

lemma avoids_mines_fold_mark_safe: "avoids_mines ai \<Longrightarrow> avoids_mines (fold mark_safe xs ai)"
  by (induction xs arbitrary: ai) (simp_all add: avoids_mines_mark_safe)

lemma avoids_mines_extract_at: "avoids_mines ai \<Longrightarrow> avoids_mines (extract_at i ai)"
  by (simp add: extract_at_def Let_def avoids_mines_fold_mark_mine avoids_mines_fold_mark_safe)

lemma avoids_mines_fold_extract_at:
  "avoids_mines ai \<Longrightarrow> avoids_mines (fold extract_at is ai)"
  by (induction "is" arbitrary: ai) (simp_all add: avoids_mines_extract_at)

lemma avoid_fold_derive_body:
  "cells i \<inter> Mn = {} \<Longrightarrow> list_all (\<lambda>s. cells s \<inter> Mn = {}) k \<Longrightarrow>
     list_all (\<lambda>s. cells s \<inter> Mn = {}) (fold (derive_body i) js k)"
proof (induction js arbitrary: k)
  case Nil
  then show ?case by simp
next
  case (Cons j js)
  have "list_all (\<lambda>s. cells s \<inter> Mn = {}) (derive_body i j k)"
    using Cons.prems by (auto simp: derive_body_def)
  then show ?case using Cons.prems(1) Cons.IH by simp
qed

lemma avoid_fold_derive_inner:
  "list_all (\<lambda>s. cells s \<inter> Mn = {}) is \<Longrightarrow> list_all (\<lambda>s. cells s \<inter> Mn = {}) k \<Longrightarrow>
     list_all (\<lambda>s. cells s \<inter> Mn = {}) (fold derive_inner is k)"
proof (induction "is" arbitrary: k)
  case Nil
  then show ?case by simp
next
  case (Cons i "is")
  have "list_all (\<lambda>s. cells s \<inter> Mn = {}) (derive_inner i k)"
    unfolding derive_inner_def using Cons.prems by (intro avoid_fold_derive_body) simp_all
  then show ?case using Cons.prems Cons.IH by simp
qed

lemma avoids_mines_derive_pass: "avoids_mines ai \<Longrightarrow> avoids_mines (derive_pass ai)"
  by (simp add: avoids_mines_def derive_pass_def avoid_fold_derive_inner)

lemma avoids_mines_observe:
  assumes "avoids_mines ai"
  shows "avoids_mines (observe ai cell cnt)"
proof -
  define ai1 where "ai1 = ai\<lparr>moves_made := insert cell (moves_made ai)\<rparr>"
  define ai2 where "ai2 = (if cell \<notin> safes ai1 then mark_safe cell ai1 else ai1)"
  have "avoids_mines ai1"
    using assms by (simp add: ai1_def avoids_mines_def)
  then have a2: "avoids_mines ai2"
    by (simp add: ai2_def avoids_mines_mark_safe)
  have "cells (neighbors ai2 cell cnt) \<inter> mines ai2 = {}"
    by (auto simp: neighbors_closed_form)
  then have "avoids_mines (ai2\<lparr>knowledge := knowledge ai2 @ [neighbors ai2 cell cnt]\<rparr>)"
    using a2 by (simp add: avoids_mines_def)
  then show ?thesis
    unfolding observe_def Let_def ai2_def ai1_def .
qed

lemma avoids_mines_add_knowledge:
  assumes "dedup_ok dedup" "avoids_mines ai"
  shows "avoids_mines (add_knowledge dedup cell cnt ai)"
proof -
  have "avoids_mines (derive_pass (extract_pass (observe ai cell cnt)))"
    unfolding extract_pass_def using assms(2)
    by (intro avoids_mines_derive_pass avoids_mines_fold_extract_at avoids_mines_observe)
  moreover have "set (dedup ks) = set ks" for ks
    using assms(1) by (simp add: dedup_ok_def)
  ultimately show ?thesis
    by (simp add: add_knowledge_def Let_def avoids_mines_def list_all_iff)
qed

lemma avoids_mines_apply_op:
  "dedup_ok dedup \<Longrightarrow> avoids_mines ai \<Longrightarrow> avoids_mines (apply_op dedup x ai)"
  by (cases x)
    (simp_all add: avoids_mines_mark_mine avoids_mines_mark_safe avoids_mines_add_knowledge
      make_safe_move_def make_random_move_def Let_def split: sum.splits)

lemma avoids_mines_run:
  "dedup_ok dedup \<Longrightarrow> avoids_mines ai \<Longrightarrow> avoids_mines (run dedup ops ai)"
  unfolding run_def by (induction ops arbitrary: ai) (simp_all add: avoids_mines_apply_op)

lemma knowledge_avoids_mines:
  assumes "dedup_ok dedup" "s \<in> set (knowledge (run dedup ops (MinesweeperAI_init h w)))"
  shows "cells s \<inter> mines (run dedup ops (MinesweeperAI_init h w)) = {}"
proof -
  have "avoids_mines (MinesweeperAI_init h w)"
    by (simp add: avoids_mines_def MinesweeperAI_init_def)
  then have "avoids_mines (run dedup ops (MinesweeperAI_init h w))"
    using assms(1) by (intro avoids_mines_run)
  then show ?thesis
    using assms(2) by (simp add: avoids_mines_def list_all_iff)
qed

subsection \<open>Sentences can hold known safe cells\<close>

text \<open>
  C1 (fails on the code): a sentence retained after \<open>add_knowledge\<close> calls can hold cells
  of \<open>safes\<close>.  On the board of 2 rows and 3 columns with its one mine at \<open>(1, 2)\<close>,
  the true observations \<open>((0, 0), 0)\<close> and \<open>((0, 1), 1)\<close> leave the sentence
  \<open>{(0, 2), (1, 0), (1, 1), (1, 2)} = 1\<close> in the knowledge although \<open>(1, 0)\<close> and
  \<open>(1, 1)\<close> are in \<open>safes\<close>: \<open>neighbors\<close> puts a safe cell that is not yet a
  move made into the new sentence.  The true observation \<open>((1, 0), 0)\<close> that follows
  does not take \<open>(1, 0)\<close> out either, since \<open>add_knowledge\<close> marks the observed cell
  safe only when it is not in \<open>safes\<close> yet.
\<close>

theorem retained_cells_in_safes:
  "list_all (agrees {(1, 2)} 2 3) (ex_leak_ops @ [AddKnowledge (1, 0) 0]) \<and>
   \<lparr>cells = {(0, 2), (1, 0), (1, 1), (1, 2)}, count = 1\<rparr> \<in> set (knowledge ex_leak) \<and>
   (1, 0) \<in> safes ex_leak \<and> (1, 1) \<in> safes ex_leak \<and>
   \<lparr>cells = {(0, 2), (1, 0), (1, 2)}, count = 1\<rparr>
     \<in> set (knowledge (add_knowledge remdups (1, 0) 0 ex_leak)) \<and>
   (1, 0) \<in> safes (add_knowledge remdups (1, 0) 0 ex_leak) \<and>
   (1, 0) \<in> moves_made (add_knowledge remdups (1, 0) 0 ex_leak)"
  by code_simp

text \<open>
  C3: after any sequence of \<open>add_knowledge\<close> calls on a new engine, each reporting, as
  the board does, for a cell without a mine the number of mines among its in-bounds
  neighbours (and more generally after any sequence of operations that agree with one
  board), every sentence of the knowledge has \<open>0 \<le> count \<le> |cells|\<close>, whatever order
  the deduplication leaves.
\<close>

theorem count_within_bounds:
  assumes "dedup_ok dedup" "list_all (agrees M h w) ops"
    "s \<in> set (knowledge (run dedup ops (MinesweeperAI_init h w)))"
  shows "0 \<le> count s \<and> count s \<le> int (card (cells s))"
proof -
  have "sound M (run dedup ops (MinesweeperAI_init h w))"
    using assms(1,2) by (rule sound_run_init)
  then have "sentence_true M s"
    using assms(3) by (simp add: sound_def list_all_iff)
  then show ?thesis by (rule sentence_true_bounds)
qed

theorem count_within_bounds_witness:
  "dedup_ok remdups \<and> list_all (agrees ex_board 2 3) ex_obs \<and>
   \<lparr>cells = {(0, 1), (1, 0), (1, 1)}, count = 2\<rparr>
     \<in> set (knowledge (run remdups ex_obs (MinesweeperAI_init 2 3))) \<and>
   0 \<le> count \<lparr>cells = {(0, 1), (1, 0), (1, 1)}, count = 2\<rparr> \<and>
   count \<lparr>cells = {(0, 1), (1, 0), (1, 1)}, count = 2\<rparr>
     \<le> int (card (cells \<lparr>cells = {(0, 1), (1, 0), (1, 1)}, count = 2\<rparr>))"
proof -
  have a: "list_all (agrees ex_board 2 3) ex_obs"
    by code_simp
  have k: "\<lparr>cells = {(0, 1), (1, 0), (1, 1)}, count = 2\<rparr>
      \<in> set (knowledge (run remdups ex_obs (MinesweeperAI_init 2 3)))"
    by code_simp
  from count_within_bounds [OF dedup_ok_remdups a k] dedup_ok_remdups a k
  show ?thesis by (simp only: simp_thms)
qed

text \<open>
  C4 (as stated, fails): marking one cell as a mine and then as safe puts it in both sets.
\<close>

theorem mines_safes_disjoint_counterexample:
  "mines (run remdups [MarkMine (0, 0), MarkSafe (0, 0)] (MinesweeperAI_init 8 8))
     \<inter> safes (run remdups [MarkMine (0, 0), MarkSafe (0, 0)] (MinesweeperAI_init 8 8)) \<noteq> {}"
  by code_simp

text \<open>
  C4 (amended): along any sequence of operations that agree with one board (\<open>mark_mine\<close>
  on mined cells, \<open>mark_safe\<close> on cells without a mine, \<open>add_knowledge\<close> with the true
  count of a cell without a mine, move suggestions), started on a new engine, \<open>mines\<close> and
  \<open>safes\<close> are disjoint after each operation.
\<close>

theorem mines_safes_disjoint:
  assumes "dedup_ok dedup" "list_all (agrees M h w) ops"
  shows "mines (run dedup (take n ops) (MinesweeperAI_init h w))
           \<inter> safes (run dedup (take n ops) (MinesweeperAI_init h w)) = {}"
proof -
  have "list_all (agrees M h w) (take n ops)"
    using assms(2) by (auto simp: list_all_iff dest: in_set_takeD)
  then have "sound M (run dedup (take n ops) (MinesweeperAI_init h w))"
    using assms(1) by (intro sound_run_init)
  then show ?thesis by (auto simp: sound_def)
qed

theorem mines_safes_disjoint_witness:
  "dedup_ok remdups \<and> list_all (agrees ex_board 2 3) ex_ops \<and>
   mines (run remdups (take 6 ex_ops) (MinesweeperAI_init 2 3)) = {(1, 0), (1, 1)} \<and>
   mines (run remdups (take 6 ex_ops) (MinesweeperAI_init 2 3))
     \<inter> safes (run remdups (take 6 ex_ops) (MinesweeperAI_init 2 3)) = {}"
proof -
  have a: "list_all (agrees ex_board 2 3) ex_ops"
    by code_simp
  have m: "mines (run remdups (take 6 ex_ops) (MinesweeperAI_init 2 3)) = {(1, 0), (1, 1)}"
    by code_simp
  from mines_safes_disjoint [OF dedup_ok_remdups a, of 6] m dedup_ok_remdups a
  show ?thesis by simp
qed

section \<open>One call of \<open>add_knowledge\<close> is one pass\<close>

text \<open>
  The part of the derivation that the code does: if after the extraction pass the knowledge
  holds \<open>A\<close> and \<open>B\<close> with the cells of \<open>B\<close> a proper subset of those of \<open>A\<close>, the
  sentence over the difference, with the difference of the counts, is in the knowledge when
  the call returns.
\<close>

lemma add_knowledge_derives:
  assumes "dedup_ok dedup"
    "A \<in> set (knowledge (extract_pass (observe ai cell cnt)))"
    "B \<in> set (knowledge (extract_pass (observe ai cell cnt)))"
    "cells B \<subset> cells A"
  shows "\<lparr>cells = cells A - cells B, count = count A - count B\<rparr>
           \<in> set (knowledge (add_knowledge dedup cell cnt ai))"
proof -
  have "set (dedup ks) = set ks" for ks
    using assms(1) by (simp add: dedup_ok_def)
  then show ?thesis
    using derive_pass_adds [OF assms(2-4)]
    by (simp add: add_knowledge_def Let_def derive_pass_def)
qed

text \<open>
  C2 (fails on the code): the call does not run to a fixpoint.  On the board of 2 rows and
  3 columns with mines at \<open>(1, 0)\<close> and \<open>(1, 1)\<close>, the true observations
  \<open>((1, 2), 1)\<close>, \<open>((0, 2), 1)\<close> and \<open>((0, 0), 2)\<close> are made on a new engine.
  During the third call the knowledge holds \<open>{(0, 1), (1, 0), (1, 1)} = 2\<close> and
  \<open>{(0, 1), (1, 1)} = 1\<close>.  When it returns, the derived sentence \<open>{(1, 0)} = 1\<close> is
  in the knowledge and \<open>known_mines\<close> of it yields \<open>{(1, 0)}\<close>, yet \<open>(1, 0)\<close> is not
  in \<open>mines\<close> and is still among the cells \<open>make_random_move\<close> chooses from: the
  derivation pass runs after the only extraction pass and nothing extracts again.
\<close>

theorem add_knowledge_stops_short:
  "list_all (agrees ex_board 2 3) ex_obs \<and>
   run remdups ex_obs (MinesweeperAI_init 2 3) = add_knowledge remdups (0, 0) 2 ex_two \<and>
   \<lparr>cells = {(0, 1), (1, 0), (1, 1)}, count = 2\<rparr>
     \<in> set (knowledge (extract_pass (observe ex_two (0, 0) 2))) \<and>
   \<lparr>cells = {(0, 1), (1, 1)}, count = 1\<rparr>
     \<in> set (knowledge (extract_pass (observe ex_two (0, 0) 2))) \<and>
   \<lparr>cells = {(1, 0)}, count = 1\<rparr> \<in> set (knowledge (add_knowledge remdups (0, 0) 2 ex_two)) \<and>
   known_mines \<lparr>cells = {(1, 0)}, count = 1\<rparr> = Some {(1, 0)} \<and>
   (1, 0) \<notin> mines (add_knowledge remdups (0, 0) 2 ex_two) \<and>
   (1, 0) \<in> set (candidate_moves (add_knowledge remdups (0, 0) 2 ex_two))"
  by code_simp

end
